theory Spec2Isabelle
  imports Complex_Main "HOL-Library.Char_ord" "HOL-Library.List_Lexorder"
begin

section \<open>Data model\<close>

text \<open>
  The two dashboards (\<^verbatim>\<open>src/byyy/app.py\<close>, variant A, and \<^verbatim>\<open>src/hii/app.py\<close>, variant B)
  each define \<^verbatim>\<open>clean_data\<close> over a pandas DataFrame. A DataFrame is modelled as a header
  (column name and column dtype, in column order) and a body (the rows in order, each with
  its index label and one cell per column).

  A cell is missing (\<open>NA\<close>: NaN, None or NaT), a number, a text or a date/time. Numbers
  are exact rationals: int64 and float64 columns are both "number" columns for
  \<^verbatim>\<open>select_dtypes\<close>, and rounding of floats is not modelled. Column names are ASCII strings.
\<close>

datatype cell = NA | Num rat | Str string | Dt int

datatype dtype = Number | Object | Datetime

type_synonym row = "nat \<times> cell list"

record dataframe =
  header :: "(string \<times> dtype) list"
  body :: "row list"

datatype error = KeyError

definition names :: "dataframe \<Rightarrow> string list" where
  "names df = map fst (header df)"

fun conforms :: "dtype \<Rightarrow> cell \<Rightarrow> bool" where
  "conforms t NA = True"
| "conforms Number (Num q) = True"
| "conforms Object (Str s) = True"
| "conforms Datetime (Dt d) = True"
| "conforms t c = False"

section \<open>Column names\<close>

text \<open>
  \<^verbatim>\<open>[c.strip().lower().replace(" ", "_") for c in df.columns]\<close>.
  \<^verbatim>\<open>str.strip()\<close> removes the whitespace characters of Python at both ends; in ASCII these
  are the codes 9 to 13 and 28 to 32.
\<close>

definition isspace :: "char \<Rightarrow> bool" where
  "isspace c = (let n = (of_char c :: nat) in (9 \<le> n \<and> n \<le> 13) \<or> (28 \<le> n \<and> n \<le> 32))"

definition strip :: "string \<Rightarrow> string" where
  "strip s = rev (dropWhile isspace (rev (dropWhile isspace s)))"

definition lower_char :: "char \<Rightarrow> char" where
  "lower_char c = (let n = (of_char c :: nat) in if 65 \<le> n \<and> n \<le> 90 then char_of (n + 32) else c)"

definition lower :: "string \<Rightarrow> string" where
  "lower s = map lower_char s"

definition replace :: "char \<Rightarrow> char \<Rightarrow> string \<Rightarrow> string" where
  "replace old new s = map (\<lambda>c. if c = old then new else c) s"

definition norm_name :: "string \<Rightarrow> string" where
  "norm_name c = replace (CHR '' '') (CHR ''_'') (lower (strip c))"

definition rename_columns :: "dataframe \<Rightarrow> dataframe" where
  "rename_columns df = df\<lparr>header := map (\<lambda>(c, t). (norm_name c, t)) (header df)\<rparr>"

section \<open>Library operations on a DataFrame\<close>

text \<open>
  pandas is not part of the repository; the operations \<^verbatim>\<open>clean_data\<close> calls are modelled
  after the documented behaviour of pandas 1.x and 2.x, where text columns read from a CSV
  file have dtype \<^verbatim>\<open>object\<close>.
\<close>

text \<open>
  \<^verbatim>\<open>df.drop_duplicates()\<close>: a row is dropped when an earlier row has the same cells (missing
  equals missing); the first occurrence stays, with its index label.
\<close>

fun keep_first :: "cell list list \<Rightarrow> row list \<Rightarrow> row list" where
  "keep_first seen [] = []"
| "keep_first seen (r # rs) =
     (if snd r \<in> set seen then keep_first seen rs else r # keep_first (snd r # seen) rs)"

definition drop_duplicates :: "dataframe \<Rightarrow> dataframe" where
  "drop_duplicates df = df\<lparr>body := keep_first [] (body df)\<rparr>"

text \<open>\<^verbatim>\<open>df.select_dtypes(include=...).columns\<close>: the names of the columns of one dtype.\<close>

definition select_dtypes :: "dtype \<Rightarrow> dataframe \<Rightarrow> string list" where
  "select_dtypes ty df = map fst (filter (\<lambda>(c, t). t = ty) (header df))"

text \<open>
  \<^verbatim>\<open>df[col]\<close> reads and \<^verbatim>\<open>df[col] = values\<close> writes the column of that name; the position is
  that of the first column so named.
\<close>

fun pos_of :: "string \<Rightarrow> string list \<Rightarrow> nat option" where
  "pos_of c [] = None"
| "pos_of c (x # xs) = (if x = c then Some 0 else map_option Suc (pos_of c xs))"

definition getitem :: "dataframe \<Rightarrow> nat \<Rightarrow> cell list" where
  "getitem df j = map (\<lambda>r. snd r ! j) (body df)"

definition setitem :: "dataframe \<Rightarrow> nat \<Rightarrow> cell list \<Rightarrow> dataframe" where
  "setitem df j vs = df\<lparr>body := map2 (\<lambda>r v. (fst r, (snd r)[j := v])) (body df) vs\<rparr>"

text \<open>
  \<^verbatim>\<open>Series.median()\<close> skips missing values; it is the middle of the sorted values, the mean
  of the two middle ones for an even count, and missing (NaN) when there is no value.
\<close>

fun nums :: "cell list \<Rightarrow> rat list" where
  "nums [] = []"
| "nums (Num q # cs) = q # nums cs"
| "nums (c # cs) = nums cs"

definition median :: "cell list \<Rightarrow> cell" where
  "median cs =
     (let s = sort (nums cs); n = length s
      in if n = 0 then NA
         else if odd n then Num (s ! (n div 2))
         else Num ((s ! (n div 2 - 1) + s ! (n div 2)) / 2))"

text \<open>\<^verbatim>\<open>Series.fillna(value)\<close>; filling with NaN changes nothing.\<close>

definition fillna :: "cell list \<Rightarrow> cell \<Rightarrow> cell list" where
  "fillna cs v = map (\<lambda>c. if c = NA then v else c) cs"

text \<open>
  \<^verbatim>\<open>Series.mode()\<close> of a text column: the most frequent non-missing values, sorted; an empty
  Series when every entry is missing. \<^verbatim>\<open>[0]\<close> on the empty Series raises KeyError.
\<close>

fun strs :: "cell list \<Rightarrow> string list" where
  "strs [] = []"
| "strs (Str s # cs) = s # strs cs"
| "strs (c # cs) = strs cs"

definition mode :: "cell list \<Rightarrow> string list" where
  "mode cs =
     (let ss = strs cs; k = fold max (map (count_list ss) ss) 0
      in sort (remdups (filter (\<lambda>s. count_list ss s = k) ss)))"

text \<open>
  \<^verbatim>\<open>pd.to_datetime(series, errors="coerce")\<close>: the conversion of one text or number to a
  date/time is the library's and is a parameter \<open>parse\<close>, given the column (the library
  infers the format from its entries) and the entry; \<open>None\<close>: not convertible. A missing
  entry stays missing, a date/time stays as it is, and the column gets the date/time
  dtype.
\<close>

fun to_datetime :: "(cell \<Rightarrow> int option) \<Rightarrow> cell \<Rightarrow> cell" where
  "to_datetime parse NA = NA"
| "to_datetime parse (Dt d) = Dt d"
| "to_datetime parse c = (case parse c of None \<Rightarrow> NA | Some d \<Rightarrow> Dt d)"

section \<open>Variant A: \<^verbatim>\<open>src/byyy/app.py\<close>\<close>

text \<open>
  \<^verbatim>\<open>for col in numeric_cols: df[col] = df[col].fillna(df[col].median())\<close>, where
  \<^verbatim>\<open>numeric_cols\<close> are the names of the number columns of \<^verbatim>\<open>df\<close> itself, so that the
  column is always found.
\<close>

definition fill_median :: "string \<Rightarrow> dataframe \<Rightarrow> dataframe" where
  "fill_median col df =
     (case pos_of col (names df) of
        None \<Rightarrow> df
      | Some j \<Rightarrow> setitem df j (fillna (getitem df j) (median (getitem df j))))"

definition fill_numeric :: "dataframe \<Rightarrow> dataframe" where
  "fill_numeric df = fold fill_median (select_dtypes Number df) df"

text \<open>
  \<^verbatim>\<open>for key_col in ["user_id", "movie_id"]: if key_col in df.columns: df = df[df[key_col].notna()]\<close>
\<close>

definition notna_rows :: "nat \<Rightarrow> dataframe \<Rightarrow> dataframe" where
  "notna_rows j df = df\<lparr>body := filter (\<lambda>r. snd r ! j \<noteq> NA) (body df)\<rparr>"

fun drop_missing_keys :: "string list \<Rightarrow> dataframe \<Rightarrow> dataframe" where
  "drop_missing_keys [] df = df"
| "drop_missing_keys (key_col # ks) df =
     drop_missing_keys ks
       (case pos_of key_col (names df) of None \<Rightarrow> df | Some j \<Rightarrow> notna_rows j df)"

text \<open>
  \<^verbatim>\<open>for tcol in ["timestamp", "date", "watch_date"]: if tcol in df.columns: df[tcol] = pd.to_datetime(df[tcol], errors="coerce"); break\<close>
\<close>

definition set_datetime :: "(cell list \<Rightarrow> cell \<Rightarrow> int option) \<Rightarrow> nat \<Rightarrow> dataframe \<Rightarrow> dataframe" where
  "set_datetime parse j df =
     (setitem df j (map (to_datetime (parse (getitem df j))) (getitem df j)))
       \<lparr>header := (header df)[j := (fst (header df ! j), Datetime)]\<rparr>"

fun parse_first :: "(cell list \<Rightarrow> cell \<Rightarrow> int option) \<Rightarrow> string list \<Rightarrow> dataframe \<Rightarrow> dataframe" where
  "parse_first parse [] df = df"
| "parse_first parse (tcol # ts) df =
     (case pos_of tcol (names df) of
        Some j \<Rightarrow> set_datetime parse j df
      | None \<Rightarrow> parse_first parse ts df)"

definition clean_data_A :: "(cell list \<Rightarrow> cell \<Rightarrow> int option) \<Rightarrow> dataframe \<Rightarrow> dataframe" where
  "clean_data_A parse df =
     parse_first parse [''timestamp'', ''date'', ''watch_date'']
       (drop_missing_keys [''user_id'', ''movie_id'']
          (fill_numeric (drop_duplicates (rename_columns df))))"

section \<open>Variant B: \<^verbatim>\<open>src/hii/app.py\<close>\<close>

text \<open>
  \<^verbatim>\<open>for col in df.select_dtypes(include="object").columns: df[col] = df[col].fillna(df[col].mode()[0])\<close>
\<close>

definition fill_mode :: "string \<Rightarrow> dataframe \<Rightarrow> error + dataframe" where
  "fill_mode col df =
     (case pos_of col (names df) of
        None \<Rightarrow> Inr df
      | Some j \<Rightarrow>
          (case mode (getitem df j) of
             [] \<Rightarrow> Inl KeyError
           | m # ms \<Rightarrow> Inr (setitem df j (fillna (getitem df j) (Str m)))))"

fun fill_modes :: "string list \<Rightarrow> dataframe \<Rightarrow> error + dataframe" where
  "fill_modes [] df = Inr df"
| "fill_modes (col # cols) df =
     (case fill_mode col df of Inl e \<Rightarrow> Inl e | Inr df' \<Rightarrow> fill_modes cols df')"

definition fill_object :: "dataframe \<Rightarrow> error + dataframe" where
  "fill_object df = fill_modes (select_dtypes Object df) df"

definition clean_data_B :: "dataframe \<Rightarrow> error + dataframe" where
  "clean_data_B df = fill_object (fill_numeric (rename_columns (drop_duplicates df)))"

section \<open>Valid input\<close>

text \<open>
  A valid dataset: every row has one cell per column, each cell is missing or of its
  column's dtype, and the normalized column names are pairwise different (each row is a
  mapping from column name to value).
\<close>

definition row_ok :: "(string \<times> dtype) list \<Rightarrow> row \<Rightarrow> bool" where
  "row_ok h r = list_all2 (\<lambda>ct v. conforms (snd ct) v) h (snd r)"

definition valid :: "dataframe \<Rightarrow> bool" where
  "valid df = (list_all (row_ok (header df)) (body df) \<and> distinct (map norm_name (names df)))"

section \<open>The object store\<close>

text \<open>
  \<^verbatim>\<open>clean_data\<close> again, with the DataFrame objects in a store: \<^verbatim>\<open>df.copy()\<close>,
  \<^verbatim>\<open>df.drop_duplicates()\<close> and \<^verbatim>\<open>df[mask]\<close> make a new object and rebind the local name
  \<^verbatim>\<open>df\<close>; \<^verbatim>\<open>df.columns = ...\<close> and \<^verbatim>\<open>df[col] = ...\<close> change the object \<^verbatim>\<open>df\<close> is bound to.
  An exception leaves the store as it is at the raise.
\<close>

type_synonym ref = nat

type_synonym heap = "dataframe list"

definition alloc :: "heap \<Rightarrow> dataframe \<Rightarrow> heap \<times> ref" where
  "alloc h d = (h @ [d], length h)"

fun drop_missing_keys_heap :: "string list \<Rightarrow> heap \<Rightarrow> ref \<Rightarrow> heap \<times> ref" where
  "drop_missing_keys_heap [] h df = (h, df)"
| "drop_missing_keys_heap (key_col # ks) h df =
     (case pos_of key_col (names (h ! df)) of
        None \<Rightarrow> drop_missing_keys_heap ks h df
      | Some j \<Rightarrow>
          (let (h', df') = alloc h (notna_rows j (h ! df))
           in drop_missing_keys_heap ks h' df'))"

definition clean_data_A_heap :: "(cell list \<Rightarrow> cell \<Rightarrow> int option) \<Rightarrow> heap \<Rightarrow> ref \<Rightarrow> heap \<times> ref" where
  "clean_data_A_heap parse h df0 =
     (let (h1, df1) = alloc h (h ! df0);
          h2 = h1[df1 := rename_columns (h1 ! df1)];
          (h3, df3) = alloc h2 (drop_duplicates (h2 ! df1));
          h4 = h3[df3 := fill_numeric (h3 ! df3)];
          (h5, df5) = drop_missing_keys_heap [''user_id'', ''movie_id''] h4 df3;
          h6 = h5[df5 := parse_first parse [''timestamp'', ''date'', ''watch_date''] (h5 ! df5)]
      in (h6, df5))"

fun fill_modes_heap :: "string list \<Rightarrow> heap \<Rightarrow> ref \<Rightarrow> heap \<times> (error + ref)" where
  "fill_modes_heap [] h df = (h, Inr df)"
| "fill_modes_heap (col # cols) h df =
     (case fill_mode col (h ! df) of
        Inl e \<Rightarrow> (h, Inl e)
      | Inr d \<Rightarrow> fill_modes_heap cols (h[df := d]) df)"

definition clean_data_B_heap :: "heap \<Rightarrow> ref \<Rightarrow> heap \<times> (error + ref)" where
  "clean_data_B_heap h df0 =
     (let (h1, df1) = alloc h (h ! df0);
          (h2, df2) = alloc h1 (drop_duplicates (h1 ! df1));
          h3 = h2[df2 := rename_columns (h2 ! df2)];
          h4 = h3[df2 := fill_numeric (h3 ! df2)]
      in fill_modes_heap (select_dtypes Object (h4 ! df2)) h4 df2)"

section \<open>Auxiliary notions\<close>

text \<open>A string that \<^verbatim>\<open>strip()\<close> leaves as it is: empty, or with no whitespace at either end.\<close>

definition trimmed :: "string \<Rightarrow> bool" where
  "trimmed s = (s = [] \<or> (\<not> isspace (hd s) \<and> \<not> isspace (last s)))"

text \<open>Every row has one cell per column.\<close>

definition sized :: "dataframe \<Rightarrow> bool" where
  "sized df = (\<forall>r \<in> set (body df). length (snd r) = length (header df))"

text \<open>The dataset with one function applied to every cell of column \<open>j\<close>.\<close>

definition map_col :: "nat \<Rightarrow> (cell \<Rightarrow> cell) \<Rightarrow> dataframe \<Rightarrow> dataframe" where
  "map_col j f df = df\<lparr>body := map (\<lambda>r. (fst r, (snd r)[j := f (snd r ! j)])) (body df)\<rparr>"


text \<open>
  The mode as the specification words it: the most frequent value, and among equally
  frequent values the one first encountered in row order.
\<close>

definition first_mode :: "cell list \<Rightarrow> string option" where
  "first_mode cs =
     (let ss = strs cs; k = fold max (map (count_list ss) ss) 0
      in find (\<lambda>s. count_list ss s = k) ss)"

section \<open>Example datasets\<close>

definition viewing :: dataframe where
  "viewing =
     \<lparr>header = [('' Movie ID '', Number), (''Genre Primary'', Object)],
      body = [(0, [Num 7, Str ''drama'']), (1, [NA, NA]), (2, [Num 9, Str ''drama''])]\<rparr>"

text \<open>A stand-in for the library's date parser on the example datasets.\<close>

definition sample_parse :: "cell list \<Rightarrow> cell \<Rightarrow> int option" where
  "sample_parse col c =
     (if c = Str ''2024-01-01'' then Some 1704067200
      else if c = Str ''2024-01-02'' then Some 1704153600
      else None)"

definition header_only :: dataframe where
  "header_only = \<lparr>header = [(''Genre'', Object)], body = []\<rparr>"

definition ratings :: dataframe where
  "ratings =
     \<lparr>header = [(''User ID'', Number), (''Title'', Object)],
      body = [(0, [Num 1, Str ''Heat'']), (1, [NA, Str ''Ran'']), (2, [Num 3, Str ''Up''])]\<rparr>"


definition twins :: dataframe where
  "twins =
     \<lparr>header = [(''a'', Number), (''b'', Number)],
      body = [(0, [Num 1, NA]), (1, [Num 1, Num 2])]\<rparr>"

definition tie :: dataframe where
  "tie =
     \<lparr>header = [(''genre'', Object)],
      body = [(0, [Str ''b'']), (1, [Str ''a'']), (2, [NA])]\<rparr>"

definition watched :: dataframe where
  "watched =
     \<lparr>header = [(''Title'', Object), (''Date'', Object), (''Timestamp'', Object)],
      body = [(0, [Str ''Heat'', Str ''2024-01-02'', Str ''2024-01-01'']),
              (1, [Str ''Ran'', Str ''2024-01-02'', Str ''not-a-date''])]\<rparr>"

definition plain :: dataframe where
  "plain =
     \<lparr>header = [(''Rating'', Number), (''Watch Duration Min'', Number)],
      body = [(0, [Num 4, Num 90]), (1, [NA, Num 120]), (2, [Num 4, Num 90]), (3, [Num 5, NA]),
              (4, [Num 3, Num 60])]\<rparr>"

definition genres :: dataframe where
  "genres =
     \<lparr>header = [(''Genre'', Object)],
      body = [(0, [Str ''a'']), (1, [Str ''a'']), (2, [NA]), (3, [Str ''b''])]\<rparr>"


section \<open>Shape of the result\<close>

lemma header_rename_columns: "header (rename_columns df) = map (\<lambda>(c, t). (norm_name c, t)) (header df)"
  by (simp add: rename_columns_def)

lemma body_rename_columns: "body (rename_columns df) = body df"
  by (simp add: rename_columns_def)

lemma names_rename_columns: "names (rename_columns df) = map norm_name (names df)"
  by (simp add: names_def rename_columns_def case_prod_unfold comp_def)

lemma header_drop_duplicates: "header (drop_duplicates df) = header df"
  by (simp add: drop_duplicates_def)

lemma header_setitem: "header (setitem df j vs) = header df"
  by (simp add: setitem_def)

lemma names_setitem: "names (setitem df j vs) = names df"
  by (simp add: names_def header_setitem)

lemma header_fill_median: "header (fill_median col df) = header df"
  by (simp add: fill_median_def header_setitem split: option.split)

lemma header_fold_fill_median: "header (fold fill_median cols df) = header df"
  by (induction cols arbitrary: df) (simp_all add: header_fill_median)

lemma header_fill_numeric: "header (fill_numeric df) = header df"
  by (simp add: fill_numeric_def header_fold_fill_median)

lemma header_notna_rows: "header (notna_rows j df) = header df"
  by (simp add: notna_rows_def)

lemma header_drop_missing_keys: "header (drop_missing_keys ks df) = header df"
  by (induction ks arbitrary: df) (simp_all add: header_notna_rows names_def split: option.split)

lemma map_update_same: "(map f xs)[j := f (xs ! j)] = map f xs"
  by (metis list_update_id map_update)

lemma names_set_datetime: "names (set_datetime parse j df) = names df"
  by (simp add: set_datetime_def names_def map_update map_update_same)

lemma names_parse_first: "names (parse_first parse ts df) = names df"
  by (induction ts) (simp_all add: names_set_datetime split: option.split)

lemma header_fill_mode: "fill_mode col df = Inr df' \<Longrightarrow> header df' = header df"
  by (auto simp add: fill_mode_def header_setitem split: option.splits list.splits)

lemma header_fill_modes: "fill_modes cols df = Inr df' \<Longrightarrow> header df' = header df"
proof (induction cols arbitrary: df)
  case Nil
  then show ?case by simp
next
  case (Cons col cols)
  then show ?case
    by (auto split: sum.splits dest: header_fill_mode)
qed

lemma header_fill_object: "fill_object df = Inr df' \<Longrightarrow> header df' = header df"
  by (simp add: fill_object_def header_fill_modes)

lemma names_clean_data_A: "names (clean_data_A parse df) = map norm_name (names df)"
proof -
  let ?d = "fill_numeric (drop_duplicates (rename_columns df))"
  have "names (clean_data_A parse df) = names (drop_missing_keys [''user_id'', ''movie_id''] ?d)"
    unfolding clean_data_A_def by (rule names_parse_first)
  also have "\<dots> = names (rename_columns df)"
    by (simp only: names_def header_drop_missing_keys header_fill_numeric header_drop_duplicates)
  finally show ?thesis
    by (simp only: names_rename_columns)
qed

lemma names_clean_data_B:
  assumes "clean_data_B df = Inr out"
  shows "names out = map norm_name (names df)"
proof -
  from assms have "header out = header (fill_numeric (rename_columns (drop_duplicates df)))"
    unfolding clean_data_B_def by (rule header_fill_object)
  then show ?thesis
    by (simp add: names_def header_fill_numeric header_rename_columns header_drop_duplicates
        case_prod_unfold comp_def)
qed

section \<open>The store version computes the same result\<close>

lemma drop_missing_keys_heap_frame:
  assumes "drop_missing_keys_heap ks h df = (h', df')" and "df < length h" and "n \<le> length h"
  shows "take n h' = take n h \<and> df' < length h' \<and> h' ! df' = drop_missing_keys ks (h ! df)
         \<and> (n \<le> df \<longrightarrow> n \<le> df')"
  using assms
proof (induction ks arbitrary: h df)
  case Nil
  then show ?case by simp
next
  case (Cons k ks)
  show ?case
  proof (cases "pos_of k (names (h ! df))")
    case None
    with Cons.prems have "drop_missing_keys_heap ks h df = (h', df')" by simp
    from Cons.IH [OF this Cons.prems(2,3)] None show ?thesis by simp
  next
    case (Some j)
    let ?h1 = "h @ [notna_rows j (h ! df)]"
    from Some Cons.prems have run: "drop_missing_keys_heap ks ?h1 (length h) = (h', df')"
      by (simp add: alloc_def)
    have "length h < length ?h1" and "n \<le> length ?h1" using Cons.prems(3) by simp_all
    from Cons.IH [OF run this] Some Cons.prems(3) show ?thesis by simp
  qed
qed

lemma fill_modes_heap_frame:
  assumes "fill_modes_heap cols h df = (h', res)" and "df < length h" and "n \<le> df"
  shows "take n h' = take n h
         \<and> (case res of Inl e \<Rightarrow> fill_modes cols (h ! df) = Inl e
             | Inr df' \<Rightarrow> df' = df \<and> df' < length h' \<and> fill_modes cols (h ! df) = Inr (h' ! df'))"
  using assms
proof (induction cols arbitrary: h)
  case Nil
  then show ?case by auto
next
  case (Cons col cols)
  show ?case
  proof (cases "fill_mode col (h ! df)")
    case (Inl e)
    with Cons.prems show ?thesis by auto
  next
    case (Inr d)
    with Cons.prems have run: "fill_modes_heap cols (h[df := d]) df = (h', res)" by simp
    have "df < length (h[df := d])" using Cons.prems(2) by simp
    from Cons.IH [OF run this Cons.prems(3)] Inr Cons.prems(2,3) show ?thesis
      by (auto simp add: take_update_cancel split: sum.splits)
  qed
qed

section \<open>Columns by name\<close>

lemma pos_of_None_iff: "pos_of c xs = None \<longleftrightarrow> c \<notin> set xs"
  by (induction xs) auto

lemma pos_of_Some: "pos_of c xs = Some j \<Longrightarrow> j < length xs \<and> xs ! j = c"
  by (induction xs arbitrary: j) (auto split: if_splits)

lemma setitem_map_getitem:
  "setitem df j (map f (getitem df j)) =
     df\<lparr>body := map (\<lambda>r. (fst r, (snd r)[j := f (snd r ! j)])) (body df)\<rparr>"
proof -
  have "map2 (\<lambda>r v. (fst r, (snd r)[j := v])) rs (map (\<lambda>r. f (snd r ! j)) rs)
        = map (\<lambda>r. (fst r, (snd r)[j := f (snd r ! j)])) rs" for rs :: "row list"
    by (induction rs) simp_all
  then show ?thesis by (simp add: setitem_def getitem_def comp_def)
qed

lemma rename_drop_duplicates_commute:
  "rename_columns (drop_duplicates df) = drop_duplicates (rename_columns df)"
  by (simp add: rename_columns_def drop_duplicates_def)

lemma select_dtypes_Object_none:
  "list_all (\<lambda>ct. snd ct = Number) hs \<Longrightarrow> map fst (filter (\<lambda>(c, t). t = Object) hs) = []"
  by (induction hs) auto

section \<open>Normalizing a normalized name\<close>

lemma lower_char_idem: "lower_char (lower_char c) = lower_char c"
  by (simp add: lower_char_def Let_def)

lemma isspace_lower_char: "isspace (lower_char c) = isspace c"
  by (auto simp add: lower_char_def isspace_def Let_def split: if_splits)

lemma isspace_blank: "isspace (CHR '' '')"
  by (simp add: isspace_def)

lemma lower_char_underscore: "lower_char (CHR ''_'') = CHR ''_''"
  by (simp add: lower_char_def)

lemma dropWhile_keeps_last:
  "xs \<noteq> [] \<Longrightarrow> \<not> P (last xs) \<Longrightarrow> dropWhile P xs \<noteq> [] \<and> last (dropWhile P xs) = last xs"
  by (induction xs) auto

lemma dropWhile_fixed: "xs \<noteq> [] \<Longrightarrow> \<not> P (hd xs) \<Longrightarrow> dropWhile P xs = xs"
  by (cases xs) simp_all

lemma trimmed_strip: "trimmed (strip s)"
proof (cases "dropWhile isspace s = []")
  case True
  have "strip s = []" by (simp only: strip_def True rev.simps dropWhile.simps)
  then show ?thesis by (simp add: trimmed_def)
next
  case False
  define ys where "ys = dropWhile isspace s"
  define zs where "zs = dropWhile isspace (rev ys)"
  have st: "strip s = rev zs" by (simp only: strip_def ys_def zs_def)
  have ys: "ys \<noteq> []" unfolding ys_def by (rule False)
  from False have "\<not> isspace (hd ys)" unfolding ys_def by (rule hd_dropWhile)
  then have "\<not> isspace (last (rev ys))" using ys by (simp add: last_rev)
  moreover from ys have "rev ys \<noteq> []" by simp
  ultimately have "dropWhile isspace (rev ys) \<noteq> []
      \<and> last (dropWhile isspace (rev ys)) = last (rev ys)"
    by (intro dropWhile_keeps_last)
  then have ne: "zs \<noteq> []" and la: "last zs = last (rev ys)"
    unfolding zs_def by (rule conjunct1, rule conjunct2)
  from ne have "\<not> isspace (hd zs)" unfolding zs_def by (rule hd_dropWhile)
  then have 1: "\<not> isspace (last (rev zs))" using ne by (simp add: last_rev)
  have "hd (rev zs) = last zs" using ne by (simp add: hd_rev)
  with la \<open>\<not> isspace (last (rev ys))\<close> have 2: "\<not> isspace (hd (rev zs))" by simp
  show ?thesis unfolding st trimmed_def using 1 2 by blast
qed

lemma strip_fixed:
  assumes "trimmed s"
  shows "strip s = s"
proof (cases "s = []")
  case True
  then show ?thesis by (simp add: strip_def)
next
  case False
  with assms have a: "\<not> isspace (hd s)" and b: "\<not> isspace (last s)"
    by (simp_all add: trimmed_def)
  from False a have "dropWhile isspace s = s" by (rule dropWhile_fixed)
  moreover have "dropWhile isspace (rev s) = rev s"
    using False b by (intro dropWhile_fixed) (simp_all add: hd_rev)
  ultimately show ?thesis by (simp add: strip_def)
qed

lemma trimmed_map:
  assumes "trimmed s" and "\<And>c. \<not> isspace c \<Longrightarrow> \<not> isspace (f c)"
  shows "trimmed (map f s)"
proof (cases "s = []")
  case True
  then show ?thesis by (simp add: trimmed_def)
next
  case False
  with assms(1) have "\<not> isspace (hd s)" and "\<not> isspace (last s)"
    by (simp_all add: trimmed_def)
  then have "\<not> isspace (f (hd s))" and "\<not> isspace (f (last s))"
    by (simp_all add: assms(2))
  with False show ?thesis by (simp add: trimmed_def hd_map last_map)
qed

lemma norm_name_idem: "norm_name (norm_name c) = norm_name c"
proof -
  let ?f = "\<lambda>c. if c = CHR '' '' then CHR ''_'' else c"
  let ?u = "norm_name c"
  have u: "?u = map ?f (map lower_char (strip c))"
    by (simp add: norm_name_def replace_def lower_def)
  have "trimmed (map lower_char (strip c))"
    using trimmed_strip by (rule trimmed_map) (simp add: isspace_lower_char)
  then have "trimmed ?u"
    unfolding u by (rule trimmed_map) (auto simp add: isspace_def)
  then have 1: "strip ?u = ?u" by (rule strip_fixed)
  have 2: "lower ?u = ?u"
    unfolding u by (simp add: lower_def lower_char_underscore lower_char_idem)
  have 3: "replace (CHR '' '') (CHR ''_'') ?u = ?u"
    unfolding u by (simp add: replace_def)
  have "norm_name ?u = replace (CHR '' '') (CHR ''_'') (lower (strip ?u))"
    by (simp only: norm_name_def)
  also have "\<dots> = ?u" by (simp only: 1 2 3)
  finally show ?thesis .
qed

lemma rename_columns_fixed:
  assumes "names df = map norm_name ns"
  shows "rename_columns df = df"
proof -
  have "norm_name (fst ct) = fst ct" if "ct \<in> set (header df)" for ct
  proof -
    from that have "fst ct \<in> set (names df)" by (simp add: names_def)
    with assms have "fst ct \<in> norm_name ` set ns" by simp
    then show ?thesis by (auto simp add: norm_name_idem)
  qed
  then have "map (\<lambda>(c, t). (norm_name c, t)) (header df) = header df"
    by (intro map_idI) (simp add: case_prod_unfold)
  then show ?thesis by (simp add: rename_columns_def)
qed

section \<open>Dropping duplicate rows\<close>

lemma keep_first_sound:
  "distinct (map snd (keep_first seen rs))
   \<and> set (map snd (keep_first seen rs)) = set (map snd rs) - set seen"
  by (induction seen rs rule: keep_first.induct) auto

lemma keep_first_subset: "set (keep_first seen rs) \<subseteq> set rs"
  by (induction seen rs rule: keep_first.induct) auto

lemma keep_first_fixed:
  "distinct (map snd rs) \<Longrightarrow> set (map snd rs) \<inter> set seen = {} \<Longrightarrow> keep_first seen rs = rs"
  by (induction seen rs rule: keep_first.induct) auto




lemma length_keep_first: "length (keep_first [] rs) = card (set (map snd rs))"
proof -
  have "length (keep_first [] rs) = length (map snd (keep_first [] rs))" by simp
  also have "\<dots> = card (set (map snd (keep_first [] rs)))"
    using keep_first_sound [of "[]" rs] distinct_card [of "map snd (keep_first [] rs)"]
    by (simp del: set_map length_map)
  also have "\<dots> = card (set (map snd rs))"
    using keep_first_sound [of "[]" rs] by simp
  finally show ?thesis .
qed

section \<open>Filling one column after another\<close>

lemma pos_of_nth: "distinct xs \<Longrightarrow> j < length xs \<Longrightarrow> pos_of (xs ! j) xs = Some j"
proof (induction xs arbitrary: j)
  case Nil
  then show ?case by simp
next
  case (Cons x xs)
  then show ?case by (cases j) auto
qed

lemma valid_sized: "valid df \<Longrightarrow> sized df"
  by (fastforce simp add: valid_def sized_def row_ok_def list_all_iff dest: list_all2_lengthD)

lemma setitem_map_col: "setitem df j (map f (getitem df j)) = map_col j f df"
  by (simp add: setitem_map_getitem map_col_def)

lemma fillna_map: "fillna cs v = map (\<lambda>c. if c = NA then v else c) cs"
  by (simp add: fillna_def)

lemma header_map_col: "header (map_col j f df) = header df"
  by (simp add: map_col_def)

lemma names_map_col: "names (map_col j f df) = names df"
  by (simp add: names_def header_map_col)

lemma labels_map_col: "map fst (body (map_col j f df)) = map fst (body df)"
  by (simp add: map_col_def comp_def)

lemma sized_map_col: "sized df \<Longrightarrow> sized (map_col j f df)"
  by (auto simp add: sized_def map_col_def)

lemma getitem_map_col:
  assumes "sized df" and "k < length (header df)"
  shows "getitem (map_col k f df) j = (if j = k then map f (getitem df k) else getitem df j)"
  using assms by (auto simp add: getitem_def map_col_def sized_def)

lemma map_col_fixed:
  assumes "\<And>r. r \<in> set (body df) \<Longrightarrow> f (snd r ! j) = snd r ! j"
  shows "map_col j f df = df"
proof -
  have "map (\<lambda>r. (fst r, (snd r)[j := f (snd r ! j)])) (body df) = body df"
    by (rule map_idI) (simp add: assms)
  then show ?thesis by (simp add: map_col_def)
qed

lemma fill_median_map_col:
  "fill_median col df =
     (case pos_of col (names df) of
        None \<Rightarrow> df
      | Some j \<Rightarrow> map_col j (\<lambda>c. if c = NA then median (getitem df j) else c) df)"
  by (simp add: fill_median_def fillna_map setitem_map_col split: option.split)

lemma fill_mode_map_col:
  "fill_mode col df =
     (case pos_of col (names df) of
        None \<Rightarrow> Inr df
      | Some j \<Rightarrow>
          (case mode (getitem df j) of
             [] \<Rightarrow> Inl KeyError
           | m # ms \<Rightarrow> Inr (map_col j (\<lambda>c. if c = NA then Str m else c) df)))"
  by (simp add: fill_mode_def fillna_map setitem_map_col split: option.split list.split)

lemma set_datetime_map_col:
  "set_datetime parse j df =
     (map_col j (to_datetime (parse (getitem df j))) df)
       \<lparr>header := (header df)[j := (fst (header df ! j), Datetime)]\<rparr>"
  by (simp add: set_datetime_def setitem_map_col)

lemma fold_fill_median_columns:
  assumes "sized df" and "distinct (names df)" and "distinct cols" and "set cols \<subseteq> set (names df)"
  shows "sized (fold fill_median cols df)
         \<and> map fst (body (fold fill_median cols df)) = map fst (body df)
         \<and> (\<forall>j < length (header df).
               getitem (fold fill_median cols df) j =
                 (if names df ! j \<in> set cols
                  then fillna (getitem df j) (median (getitem df j)) else getitem df j))"
  using assms
proof (induction cols arbitrary: df)
  case Nil
  then show ?case by simp
next
  case (Cons col cols)
  from Cons.prems(4) have "col \<in> set (names df)" by simp
  then obtain k where k: "pos_of col (names df) = Some k"
    using pos_of_None_iff [of col "names df"] by (cases "pos_of col (names df)") auto
  from pos_of_Some [OF k] have kl: "k < length (header df)" and kn: "names df ! k = col"
    by (simp_all add: names_def)
  let ?f = "\<lambda>c. if c = NA then median (getitem df k) else c"
  let ?d = "map_col k ?f df"
  have step: "fill_median col df = ?d" by (simp add: fill_median_map_col k)
  have hd: "header ?d = header df" by (rule header_map_col)
  have nm: "names ?d = names df" by (rule names_map_col)
  have "sized ?d" using Cons.prems(1) by (rule sized_map_col)
  moreover have "distinct (names ?d)" using Cons.prems(2) by (simp add: nm)
  moreover have "distinct cols" using Cons.prems(3) by simp
  moreover have "set cols \<subseteq> set (names ?d)" using Cons.prems(4) by (simp add: nm)
  ultimately have IH: "sized (fold fill_median cols ?d)"
    "map fst (body (fold fill_median cols ?d)) = map fst (body ?d)"
    "\<forall>j < length (header ?d).
               getitem (fold fill_median cols ?d) j =
                 (if names ?d ! j \<in> set cols
                  then fillna (getitem ?d j) (median (getitem ?d j)) else getitem ?d j)"
    using Cons.IH [of ?d] by blast+
  have col_notin: "col \<notin> set cols" using Cons.prems(3) by simp
  have cols: "getitem (fold fill_median cols ?d) j =
                 (if names df ! j \<in> set (col # cols)
                  then fillna (getitem df j) (median (getitem df j)) else getitem df j)"
    if jl: "j < length (header df)" for j
  proof (cases "j = k")
    case True
    with kn col_notin have "names df ! j \<notin> set cols" by simp
    with IH(3) jl have "getitem (fold fill_median cols ?d) j = getitem ?d j"
      by (simp add: hd nm)
    also have "\<dots> = fillna (getitem df j) (median (getitem df j))"
      using True getitem_map_col [OF Cons.prems(1) kl, of ?f j] by (simp add: fillna_map)
    finally show ?thesis using True kn by simp
  next
    case False
    have same: "getitem ?d j = getitem df j"
      using False getitem_map_col [OF Cons.prems(1) kl, of ?f j] by simp
    have "names df ! j \<noteq> col"
    proof
      assume "names df ! j = col"
      with kn have "names df ! j = names df ! k" by simp
      moreover have "j < length (names df)" and "k < length (names df)"
        using jl kl by (simp_all add: names_def)
      ultimately have "j = k"
        using Cons.prems(2) by (simp only: nth_eq_iff_index_eq)
      with False show False by simp
    qed
    with IH(3) jl same show ?thesis by (simp add: hd nm)
  qed
  show ?case
    using IH(1,2) cols by (simp add: step labels_map_col)
qed

lemma select_dtypes_names:
  assumes "distinct (names df)"
  shows "distinct (select_dtypes ty df)" and "set (select_dtypes ty df) \<subseteq> set (names df)"
proof -
  have "distinct (map fst (filter P (header df)))" for P
    using assms unfolding names_def by (rule distinct_map_filter)
  then show "distinct (select_dtypes ty df)" by (simp add: select_dtypes_def)
  show "set (select_dtypes ty df) \<subseteq> set (names df)"
    by (auto simp add: select_dtypes_def names_def)
qed

lemma select_dtypes_nth:
  assumes "distinct (names df)" and "j < length (header df)"
  shows "names df ! j \<in> set (select_dtypes ty df) \<longleftrightarrow> snd (header df ! j) = ty"
proof
  assume "names df ! j \<in> set (select_dtypes ty df)"
  then obtain ct where ct: "ct \<in> set (header df)" "snd ct = ty" "fst ct = names df ! j"
    by (auto simp add: select_dtypes_def)
  then obtain i where i: "i < length (header df)" "header df ! i = ct"
    by (auto simp add: in_set_conv_nth)
  with ct assms(2) have "names df ! i = names df ! j" by (simp add: names_def)
  moreover have "i < length (names df)" and "j < length (names df)"
    using i(1) assms(2) by (simp_all add: names_def)
  ultimately have "i = j" using assms(1) by (simp only: nth_eq_iff_index_eq)
  with i ct show "snd (header df ! j) = ty" by simp
next
  assume "snd (header df ! j) = ty"
  with assms(2) have "header df ! j \<in> set (filter (\<lambda>(c, t). t = ty) (header df))"
    by (auto simp add: case_prod_unfold)
  then have "fst (header df ! j) \<in> set (select_dtypes ty df)"
    unfolding select_dtypes_def by (simp only: set_map image_eqI)
  with assms(2) show "names df ! j \<in> set (select_dtypes ty df)" by (simp add: names_def)
qed

lemma fill_numeric_columns:
  assumes "sized df" and "distinct (names df)"
  shows "sized (fill_numeric df)"
    and "map fst (body (fill_numeric df)) = map fst (body df)"
    and "j < length (header df) \<Longrightarrow>
           getitem (fill_numeric df) j =
             (if snd (header df ! j) = Number
              then fillna (getitem df j) (median (getitem df j)) else getitem df j)"
proof -
  note sel = select_dtypes_names [OF assms(2), of Number]
  note all = fold_fill_median_columns [OF assms sel]
  from all show "sized (fill_numeric df)" by (simp add: fill_numeric_def)
  from all show "map fst (body (fill_numeric df)) = map fst (body df)"
    by (simp add: fill_numeric_def)
  assume j: "j < length (header df)"
  with all have "getitem (fill_numeric df) j =
      (if names df ! j \<in> set (select_dtypes Number df)
       then fillna (getitem df j) (median (getitem df j)) else getitem df j)"
    by (simp add: fill_numeric_def)
  then show "getitem (fill_numeric df) j =
             (if snd (header df ! j) = Number
              then fillna (getitem df j) (median (getitem df j)) else getitem df j)"
    by (simp only: select_dtypes_nth [OF assms(2) j])
qed

lemma fill_modes_columns:
  assumes "sized df" and "distinct (names df)" and "distinct cols"
    and "set cols \<subseteq> set (names df)" and "fill_modes cols df = Inr out"
  shows "sized out \<and> header out = header df
         \<and> map fst (body out) = map fst (body df)
         \<and> (\<forall>j < length (header df).
               if names df ! j \<in> set cols
               then (\<exists>m ms. mode (getitem df j) = m # ms
                             \<and> getitem out j = fillna (getitem df j) (Str m))
               else getitem out j = getitem df j)"
  using assms
proof (induction cols arbitrary: df)
  case Nil
  then show ?case by simp
next
  case (Cons col cols)
  from Cons.prems(4) have "col \<in> set (names df)" by simp
  then obtain k where k: "pos_of col (names df) = Some k"
    using pos_of_None_iff [of col "names df"] by (cases "pos_of col (names df)") auto
  from pos_of_Some [OF k] have kl: "k < length (header df)" and kn: "names df ! k = col"
    by (simp_all add: names_def)
  from Cons.prems(5) obtain d where d: "fill_mode col df = Inr d" and rest: "fill_modes cols d = Inr out"
    by (auto split: sum.splits)
  from d k obtain m ms where m: "mode (getitem df k) = m # ms"
    and dd: "d = map_col k (\<lambda>c. if c = NA then Str m else c) df"
    by (auto simp add: fill_mode_map_col split: list.splits)
  let ?f = "\<lambda>c. if c = NA then Str m else c"
  have hd: "header d = header df" unfolding dd by (rule header_map_col)
  have nm: "names d = names df" unfolding dd by (rule names_map_col)
  have "sized d" unfolding dd using Cons.prems(1) by (rule sized_map_col)
  moreover have "distinct (names d)" using Cons.prems(2) by (simp add: nm)
  moreover have "distinct cols" using Cons.prems(3) by simp
  moreover have "set cols \<subseteq> set (names d)" using Cons.prems(4) by (simp add: nm)
  ultimately have IH: "sized out" "header out = header d"
    "map fst (body out) = map fst (body d)"
    "\<forall>j < length (header d).
               if names d ! j \<in> set cols
               then (\<exists>m ms. mode (getitem d j) = m # ms
                             \<and> getitem out j = fillna (getitem d j) (Str m))
               else getitem out j = getitem d j"
    using Cons.IH [of d] rest by blast+
  have col_notin: "col \<notin> set cols" using Cons.prems(3) by simp
  have cols: "if names df ! j \<in> set (col # cols)
               then (\<exists>m ms. mode (getitem df j) = m # ms
                             \<and> getitem out j = fillna (getitem df j) (Str m))
               else getitem out j = getitem df j"
    if jl: "j < length (header df)" for j
  proof (cases "j = k")
    case True
    with kn col_notin have "names df ! j \<notin> set cols" by simp
    with IH(4) jl have "getitem out j = getitem d j"
      by (simp add: hd nm)
    also have "\<dots> = fillna (getitem df j) (Str m)"
      using True getitem_map_col [OF Cons.prems(1) kl, of ?f j] by (simp add: fillna_map dd)
    finally show ?thesis using True kn m by simp
  next
    case False
    have same: "getitem d j = getitem df j"
      using False getitem_map_col [OF Cons.prems(1) kl, of ?f j] by (simp add: dd)
    have "names df ! j \<noteq> col"
    proof
      assume "names df ! j = col"
      with kn have "names df ! j = names df ! k" by simp
      moreover have "j < length (names df)" and "k < length (names df)"
        using jl kl by (simp_all add: names_def)
      ultimately have "j = k"
        using Cons.prems(2) by (simp only: nth_eq_iff_index_eq)
      with False show False by simp
    qed
    moreover from IH(4) jl have "if names d ! j \<in> set cols
               then (\<exists>m ms. mode (getitem d j) = m # ms
                             \<and> getitem out j = fillna (getitem d j) (Str m))
               else getitem out j = getitem d j"
      unfolding hd by blast
    ultimately show ?thesis unfolding same nm by (auto split: if_splits)
  qed
  have "header out = header df" using IH(2) hd by simp
  moreover have "map fst (body out) = map fst (body df)"
    using IH(3) by (simp add: dd labels_map_col)
  ultimately show ?case
    using IH(1) cols by blast
qed

lemma fill_object_columns:
  assumes "sized df" and "distinct (names df)" and "fill_object df = Inr out"
  shows "sized out" and "header out = header df"
    and "map fst (body out) = map fst (body df)"
    and "j < length (header df) \<Longrightarrow>
           (if snd (header df ! j) = Object
            then (\<exists>m ms. mode (getitem df j) = m # ms
                          \<and> getitem out j = fillna (getitem df j) (Str m))
            else getitem out j = getitem df j)"
proof -
  note sel = select_dtypes_names [OF assms(2), of Object]
  from assms(3) have "fill_modes (select_dtypes Object df) df = Inr out"
    by (simp add: fill_object_def)
  note all = fill_modes_columns [OF assms(1,2) sel this]
  from all show "sized out" and "header out = header df"
    and "map fst (body out) = map fst (body df)" by blast+
  assume j: "j < length (header df)"
  with all have "if names df ! j \<in> set (select_dtypes Object df)
         then (\<exists>m ms. mode (getitem df j) = m # ms
                       \<and> getitem out j = fillna (getitem df j) (Str m))
         else getitem out j = getitem df j"
    by blast
  then show "if snd (header df ! j) = Object
            then (\<exists>m ms. mode (getitem df j) = m # ms
                          \<and> getitem out j = fillna (getitem df j) (Str m))
            else getitem out j = getitem df j"
    by (simp only: select_dtypes_nth [OF assms(2) j])
qed

section \<open>Median and mode\<close>

lemma nums_empty_iff: "nums cs = [] \<longleftrightarrow> (\<forall>q. Num q \<notin> set cs)"
  by (induction cs rule: nums.induct) auto

lemma sort_empty_iff: "sort xs = [] \<longleftrightarrow> xs = []"
proof -
  have "length (sort xs) = length xs" by simp
  then show ?thesis by (metis length_0_conv)
qed

lemma median_NA_iff: "median cs = NA \<longleftrightarrow> nums cs = []"
  by (simp add: median_def Let_def sort_empty_iff)

lemma strs_empty_iff: "strs cs = [] \<longleftrightarrow> (\<forall>s. Str s \<notin> set cs)"
  by (induction cs rule: strs.induct) auto

lemma set_strs: "set (strs cs) = {s. Str s \<in> set cs}"
  by (induction cs rule: strs.induct) auto

lemma fillna_no_NA: "v \<noteq> NA \<Longrightarrow> NA \<notin> set (fillna cs v)"
  by (auto simp add: fillna_def)

lemma fillna_fixed: "NA \<notin> set cs \<or> v = NA \<Longrightarrow> fillna cs v = cs"
  by (auto simp add: fillna_def intro: map_idI)

lemma fold_max_Max: "fold max xs (a::nat) = Max (insert a (set xs))"
proof -
  have "Max (set (a # xs)) = fold max xs a" by (rule Max.set_eq_fold)
  then show ?thesis by simp
qed

lemma mode_most_frequent:
  assumes "mode cs = m # ms"
  shows "m \<in> set (strs cs)"
    and "count_list (strs cs) s \<le> count_list (strs cs) m"
    and "count_list (strs cs) s = count_list (strs cs) m \<Longrightarrow> m \<le> s"
proof -
  define ss where "ss = strs cs"
  define k where "k = fold max (map (count_list ss) ss) 0"
  define cand where "cand = filter (\<lambda>s. count_list ss s = k) ss"
  have md: "mode cs = sort (remdups cand)"
    by (simp add: mode_def Let_def ss_def k_def cand_def)
  with assms have srt: "sort (remdups cand) = m # ms" by simp
  then have "m \<in> set (sort (remdups cand))" by simp
  then have mc: "m \<in> set cand" by simp
  then have m_in: "m \<in> set ss" and cm: "count_list ss m = k" by (simp_all add: cand_def)
  from m_in show "m \<in> set (strs cs)" by (simp add: ss_def)
  have kmax: "k = Max (insert 0 (count_list ss ` set ss))"
    by (simp add: k_def fold_max_Max)
  have le: "count_list ss s \<le> k" for s
  proof (cases "s \<in> set ss")
    case True
    then show ?thesis unfolding kmax by (intro Max_ge) auto
  next
    case False
    then show ?thesis by (simp add: count_list_0_iff)
  qed
  from le cm show "count_list (strs cs) s \<le> count_list (strs cs) m" by (simp add: ss_def)
  have kpos: "0 < k" using m_in cm count_list_0_iff [of ss m] by auto
  assume "count_list (strs cs) s = count_list (strs cs) m"
  then have "count_list ss s = k" using cm by (simp add: ss_def)
  with kpos have "s \<in> set ss" using count_list_0_iff [of ss s] by auto
  with \<open>count_list ss s = k\<close> have "s \<in> set cand" by (simp add: cand_def)
  then have "s \<in> set (m # ms)" unfolding srt [symmetric] by simp
  moreover have "sorted (m # ms)" unfolding srt [symmetric] by (rule sorted_sort)
  ultimately show "m \<le> s" by auto
qed

lemma mode_empty_iff: "mode cs = [] \<longleftrightarrow> strs cs = []"
proof
  assume "strs cs = []"
  then show "mode cs = []" by (simp add: mode_def)
next
  assume e: "mode cs = []"
  define ss where "ss = strs cs"
  define k where "k = fold max (map (count_list ss) ss) 0"
  show "strs cs = []"
  proof (rule ccontr)
    assume "strs cs \<noteq> []"
    then have ne: "ss \<noteq> []" by (simp add: ss_def)
    have kmax: "k = Max (insert 0 (count_list ss ` set ss))"
      by (simp add: k_def fold_max_Max)
    have "k \<in> insert 0 (count_list ss ` set ss)"
      unfolding kmax by (rule Max_in) simp_all
    moreover obtain x where x: "x \<in> set ss" using ne by (cases ss) auto
    then have "0 < count_list ss x" using count_list_0_iff [of ss x] by auto
    moreover have "count_list ss x \<le> k" unfolding kmax using x by (intro Max_ge) auto
    ultimately have "k \<in> count_list ss ` set ss" by auto
    then obtain s where "s \<in> set ss" "count_list ss s = k" by auto
    then have "filter (\<lambda>s. count_list ss s = k) ss \<noteq> []"
      by (auto simp add: filter_empty_conv)
    then have "mode cs \<noteq> []"
      by (simp add: mode_def Let_def ss_def [symmetric] k_def [symmetric] sort_empty_iff)
    with e show False by simp
  qed
qed

section \<open>Rows and columns of the result\<close>

lemma sized_drop_duplicates: "sized df \<Longrightarrow> sized (drop_duplicates df)"
  using keep_first_subset [of "[]" "body df"]
  by (auto simp add: sized_def drop_duplicates_def)

lemma sized_rename_columns: "sized df \<Longrightarrow> sized (rename_columns df)"
  by (simp add: sized_def rename_columns_def)

lemma getitem_rename_columns: "getitem (rename_columns df) j = getitem df j"
  by (simp add: getitem_def rename_columns_def)

lemma names_drop_duplicates: "names (drop_duplicates df) = names df"
  by (simp add: names_def header_drop_duplicates)

lemma base_frame:
  assumes "valid df"
  defines "X \<equiv> rename_columns (drop_duplicates df)"
  shows "sized X" and "distinct (names X)" and "length (header X) = length (header df)"
    and "j < length (header df) \<Longrightarrow> snd (header X ! j) = snd (header df ! j)"
    and "body X = body (drop_duplicates df)"
    and "getitem X j = getitem (drop_duplicates df) j"
proof -
  from assms(1) have "sized df" by (rule valid_sized)
  then show "sized X" unfolding X_def by (intro sized_rename_columns sized_drop_duplicates)
  have "names X = map norm_name (names df)"
    by (simp only: X_def names_rename_columns names_drop_duplicates)
  with assms(1) show "distinct (names X)" by (simp add: valid_def)
  show "length (header X) = length (header df)"
    by (simp add: X_def header_rename_columns header_drop_duplicates)
  show "body X = body (drop_duplicates df)" by (simp add: X_def body_rename_columns)
  show "getitem X j = getitem (drop_duplicates df) j"
    by (simp add: X_def getitem_rename_columns)
  assume "j < length (header df)"
  then show "snd (header X ! j) = snd (header df ! j)"
    by (simp add: X_def header_rename_columns header_drop_duplicates case_prod_unfold)
qed

lemma rows_of_columns:
  assumes "map fst (body F) = map fst (body X)" and "getitem F j = map f (getitem X j)"
    and "r \<in> set (body F)"
  shows "\<exists>r0 \<in> set (body X). fst r = fst r0 \<and> snd r ! j = f (snd r0 ! j)"
proof -
  from assms(1) have len: "length (body F) = length (body X)" by (rule map_eq_imp_length_eq)
  from assms(3) obtain i where i: "i < length (body F)" "body F ! i = r"
    by (auto simp add: in_set_conv_nth)
  from assms(1) i len have "fst r = fst (body X ! i)"
    by (metis nth_map)
  moreover from assms(2) have "getitem F j ! i = map f (getitem X j) ! i" by simp
  with i len have "snd r ! j = f (snd (body X ! i) ! j)" by (simp add: getitem_def)
  moreover from i len have "body X ! i \<in> set (body X)" by simp
  ultimately show ?thesis by blast
qed

lemma body_drop_missing_keys:
  "set (body (drop_missing_keys ks df)) \<subseteq> set (body df)"
proof (induction ks arbitrary: df)
  case Nil
  show ?case by simp
next
  case (Cons k ks)
  show ?case
  proof (cases "pos_of k (names df)")
    case None
    with Cons.IH [of df] show ?thesis by simp
  next
    case (Some j)
    with Cons.IH [of "notna_rows j df"] show ?thesis by (auto simp add: notna_rows_def)
  qed
qed

lemma parse_first_cases:
  "parse_first parse ts df = df
   \<or> (\<exists>t \<in> set ts. \<exists>jt. pos_of t (names df) = Some jt
         \<and> parse_first parse ts df = set_datetime parse jt df)"
  by (induction ts) (auto split: option.splits)

lemma body_parse_first:
  assumes "j < length (header df)" and "snd (header (parse_first parse ts df) ! j) \<noteq> Datetime"
    and "r \<in> set (body (parse_first parse ts df))"
  shows "\<exists>r1 \<in> set (body df). fst r = fst r1 \<and> snd r ! j = snd r1 ! j"
proof -
  from parse_first_cases [of parse ts df] show ?thesis
  proof
    assume "parse_first parse ts df = df"
    with assms(3) show ?thesis by auto
  next
    assume "\<exists>t \<in> set ts. \<exists>jt. pos_of t (names df) = Some jt
         \<and> parse_first parse ts df = set_datetime parse jt df"
    then obtain t jt where jt: "pos_of t (names df) = Some jt"
      and eq: "parse_first parse ts df = set_datetime parse jt df" by blast
    have "jt \<noteq> j"
    proof
      assume "jt = j"
      with assms(1) have "snd (header (set_datetime parse jt df) ! j) = Datetime"
        by (simp add: set_datetime_map_col)
      with assms(2) eq show False by simp
    qed
    from assms(3) eq have "r \<in> set (body (map_col jt (to_datetime (parse (getitem df jt))) df))"
      by (simp add: set_datetime_map_col)
    then obtain r1 where r1: "r1 \<in> set (body df)"
      and r: "r = (fst r1, (snd r1)[jt := to_datetime (parse (getitem df jt)) (snd r1 ! jt)])"
      by (auto simp add: map_col_def)
    from r \<open>jt \<noteq> j\<close> have "fst r = fst r1 \<and> snd r ! j = snd r1 ! j" by simp
    with r1 show ?thesis by blast
  qed
qed

section \<open>Steps that change nothing\<close>

lemma fold_fixed: "(\<And>c. c \<in> set cs \<Longrightarrow> f c x = x) \<Longrightarrow> fold f cs x = x"
  by (induction cs) simp_all

lemma setitem_getitem: "setitem df j (getitem df j) = df"
proof -
  have "setitem df j (map (\<lambda>c. c) (getitem df j)) = map_col j (\<lambda>c. c) df"
    by (rule setitem_map_col)
  moreover have "map_col j (\<lambda>c. c) df = df" by (rule map_col_fixed) simp
  ultimately show ?thesis by simp
qed

lemma fill_median_fixed:
  assumes "\<And>j. pos_of col (names df) = Some j \<Longrightarrow>
             NA \<notin> set (getitem df j) \<or> nums (getitem df j) = []"
  shows "fill_median col df = df"
proof (cases "pos_of col (names df)")
  case None
  then show ?thesis by (simp add: fill_median_def)
next
  case (Some k)
  with assms have "NA \<notin> set (getitem df k) \<or> median (getitem df k) = NA"
    by (simp add: median_NA_iff)
  then have "fillna (getitem df k) (median (getitem df k)) = getitem df k"
    by (rule fillna_fixed)
  with Some show ?thesis by (simp add: fill_median_def setitem_getitem)
qed

lemma fill_mode_fixed:
  assumes "\<And>j. pos_of col (names df) = Some j \<Longrightarrow>
             NA \<notin> set (getitem df j) \<and> strs (getitem df j) \<noteq> []"
  shows "fill_mode col df = Inr df"
proof (cases "pos_of col (names df)")
  case None
  then show ?thesis by (simp add: fill_mode_def)
next
  case (Some k)
  with assms have na: "NA \<notin> set (getitem df k)" and "strs (getitem df k) \<noteq> []" by simp_all
  then have "mode (getitem df k) \<noteq> []" by (simp add: mode_empty_iff)
  then obtain m ms where m: "mode (getitem df k) = m # ms" by (cases "mode (getitem df k)") auto
  from na have "fillna (getitem df k) (Str m) = getitem df k" by (simp add: fillna_fixed)
  with Some m show ?thesis by (simp add: fill_mode_def setitem_getitem)
qed

lemma fill_modes_fixed:
  "(\<And>c. c \<in> set cols \<Longrightarrow> fill_mode c df = Inr df) \<Longrightarrow> fill_modes cols df = Inr df"
  by (induction cols) simp_all




lemma notna_rows_fixed: "NA \<notin> set (getitem df j) \<Longrightarrow> notna_rows j df = df"
proof -
  assume "NA \<notin> set (getitem df j)"
  then have "filter (\<lambda>r. snd r ! j \<noteq> NA) (body df) = body df"
    by (intro filter_True) (force simp add: getitem_def)
  then show ?thesis by (simp add: notna_rows_def)
qed

lemma drop_missing_keys_fixed:
  assumes "\<And>k j. k \<in> set ks \<Longrightarrow> pos_of k (names df) = Some j \<Longrightarrow> NA \<notin> set (getitem df j)"
  shows "drop_missing_keys ks df = df"
  using assms
proof (induction ks)
  case Nil
  show ?case by simp
next
  case (Cons k ks)
  have "(case pos_of k (names df) of None \<Rightarrow> df | Some j \<Rightarrow> notna_rows j df) = df"
    using Cons.prems [of k] by (auto simp add: notna_rows_fixed split: option.splits)
  moreover have "drop_missing_keys ks df = df"
    using Cons.prems by (intro Cons.IH) auto
  ultimately show ?case by simp
qed




section \<open>Cleaning a cleaned dataset\<close>

lemma to_datetime_idem: "to_datetime p' (to_datetime p c) = to_datetime p c"
  by (cases c) (auto split: option.splits)

lemma update_twice:
  assumes "\<And>c. g (f c) = f c"
  shows "xs[j := g (xs[j := f (xs ! j)] ! j)] = xs[j := f (xs ! j)]"
  by (cases "j < length xs") (simp_all add: assms list_update_beyond)

lemma set_datetime_idem:
  "set_datetime parse j (set_datetime parse j df) = set_datetime parse j df"
proof -
  let ?h = "(header df)[j := (fst (header df ! j), Datetime)]"
  have h: "(header df)[j := (fst (?h ! j), Datetime)] = ?h"
    by (cases "j < length (header df)") (simp_all add: list_update_beyond)
  have u: "xs[j := to_datetime p' (xs[j := to_datetime p (xs ! j)] ! j)]
           = xs[j := to_datetime p (xs ! j)]" for xs p p'
    by (rule update_twice) (rule to_datetime_idem)
  show ?thesis
    by (simp add: set_datetime_map_col map_col_def h u comp_def)
qed

lemma parse_first_idem:
  "parse_first parse ts (parse_first parse ts df) = parse_first parse ts df"
proof (induction ts)
  case Nil
  show ?case by simp
next
  case (Cons t ts)
  show ?case
  proof (cases "pos_of t (names df)")
    case None
    then have "pos_of t (names (parse_first parse ts df)) = None"
      by (simp add: names_parse_first)
    with None Cons show ?thesis by simp
  next
    case (Some j)
    then have "pos_of t (names (set_datetime parse j df)) = Some j"
      by (simp add: names_set_datetime)
    with Some show ?thesis by (simp add: set_datetime_idem)
  qed
qed

lemma body_parse_first_by_name:
  assumes "pos_of k (names df) = Some j" and "k \<notin> set ts"
    and "r \<in> set (body (parse_first parse ts df))"
  shows "\<exists>r1 \<in> set (body df). fst r = fst r1 \<and> snd r ! j = snd r1 ! j"
proof -
  from parse_first_cases [of parse ts df] show ?thesis
  proof
    assume "parse_first parse ts df = df"
    with assms(3) show ?thesis by auto
  next
    assume "\<exists>t \<in> set ts. \<exists>jt. pos_of t (names df) = Some jt
         \<and> parse_first parse ts df = set_datetime parse jt df"
    then obtain t jt where t: "t \<in> set ts" and jt: "pos_of t (names df) = Some jt"
      and eq: "parse_first parse ts df = set_datetime parse jt df" by blast
    have "jt \<noteq> j"
    proof
      assume "jt = j"
      with pos_of_Some [OF jt] pos_of_Some [OF assms(1)] have "t = k" by simp
      with t assms(2) show False by simp
    qed
    from assms(3) eq have "r \<in> set (body (map_col jt (to_datetime (parse (getitem df jt))) df))"
      by (simp add: set_datetime_map_col)
    then obtain r1 where r1: "r1 \<in> set (body df)"
      and r: "r = (fst r1, (snd r1)[jt := to_datetime (parse (getitem df jt)) (snd r1 ! jt)])"
      by (auto simp add: map_col_def)
    from r \<open>jt \<noteq> j\<close> have "fst r = fst r1 \<and> snd r ! j = snd r1 ! j" by simp
    with r1 show ?thesis by blast
  qed
qed

lemma names_drop_missing_keys: "names (drop_missing_keys ks df) = names df"
  by (simp add: names_def header_drop_missing_keys)

lemma drop_missing_keys_notna:
  assumes "k \<in> set ks" and "pos_of k (names df) = Some j"
    and "r \<in> set (body (drop_missing_keys ks df))"
  shows "snd r ! j \<noteq> NA"
  using assms
proof (induction ks arbitrary: df)
  case Nil
  then show ?case by simp
next
  case (Cons a ks)
  let ?d = "case pos_of a (names df) of None \<Rightarrow> df | Some i \<Rightarrow> notna_rows i df"
  have nm: "names ?d = names df"
    by (simp add: names_def header_notna_rows split: option.split)
  from Cons.prems(3) have r: "r \<in> set (body (drop_missing_keys ks ?d))" by simp
  show ?case
  proof (cases "k = a")
    case True
    with Cons.prems(2) have "?d = notna_rows j df" by simp
    with r have "r \<in> set (body (notna_rows j df))"
      using body_drop_missing_keys [of ks "notna_rows j df"] by auto
    then show ?thesis by (simp add: notna_rows_def)
  next
    case False
    with Cons.prems(1) have "k \<in> set ks" by simp
    moreover from Cons.prems(2) have "pos_of k (names ?d) = Some j" by (simp only: nm)
    ultimately show ?thesis using r by (rule Cons.IH)
  qed
qed

lemma header_parse_first:
  "length (header (parse_first parse ts df)) = length (header df)"
  "j < length (header df) \<Longrightarrow> snd (header (parse_first parse ts df) ! j) \<noteq> Datetime
     \<Longrightarrow> header (parse_first parse ts df) ! j = header df ! j"
proof -
  from parse_first_cases [of parse ts df]
  have c: "header (parse_first parse ts df) = header df
     \<or> (\<exists>jt. header (parse_first parse ts df) = (header df)[jt := (fst (header df ! jt), Datetime)])"
    by (auto simp add: set_datetime_map_col header_map_col)
  then show "length (header (parse_first parse ts df)) = length (header df)" by auto
  assume j: "j < length (header df)"
    and t: "snd (header (parse_first parse ts df) ! j) \<noteq> Datetime"
  from c show "header (parse_first parse ts df) ! j = header df ! j"
  proof
    assume "header (parse_first parse ts df) = header df"
    then show ?thesis by simp
  next
    assume "\<exists>jt. header (parse_first parse ts df) = (header df)[jt := (fst (header df ! jt), Datetime)]"
    then obtain jt where e: "header (parse_first parse ts df) = (header df)[jt := (fst (header df ! jt), Datetime)]"
      by blast
    with j t have "jt \<noteq> j" by auto
    with e show ?thesis by simp
  qed
qed

lemma in_getitem: "c \<in> set (getitem df j) \<longleftrightarrow> (\<exists>r \<in> set (body df). snd r ! j = c)"
  by (auto simp add: getitem_def)

lemma numeric_column_settled_A:
  assumes "valid df" and "pos_of col (names (clean_data_A parse df)) = Some j"
    and "col \<in> set (select_dtypes Number (clean_data_A parse df))"
  shows "NA \<notin> set (getitem (clean_data_A parse df) j)
         \<or> nums (getitem (clean_data_A parse df) j) = []"
proof -
  define X where "X = rename_columns (drop_duplicates df)"
  define F where "F = fill_numeric X"
  define pre where "pre = drop_missing_keys [''user_id'', ''movie_id''] F"
  define out where "out = clean_data_A parse df"
  note base = base_frame [OF assms(1), folded X_def]
  note fn = fill_numeric_columns [OF base(1,2), folded F_def]
  have hF: "header F = header X" unfolding F_def by (rule header_fill_numeric)
  have hpre: "header pre = header X"
    unfolding pre_def by (simp only: header_drop_missing_keys hF)
  have A: "out = parse_first parse [''timestamp'', ''date'', ''watch_date''] pre"
    by (simp only: out_def clean_data_A_def pre_def F_def X_def rename_drop_duplicates_commute)
  have "names out = names pre" by (simp only: A names_parse_first)
  then have nout: "names out = names X" by (simp only: names_def hpre)
  have lout: "length (header out) = length (header X)"
    by (simp only: A header_parse_first(1) hpre)
  from pos_of_Some [OF assms(2) [folded out_def]]
  have j: "j < length (header out)" and cj: "names out ! j = col" by (simp_all add: names_def)
  have dout: "distinct (names out)" using base(2) by (simp add: nout)
  from assms(3) cj have ty: "snd (header out ! j) = Number"
    using select_dtypes_nth [OF dout j, of Number] by (simp add: out_def)
  have jX: "j < length (header X)" using j lout by simp
  have "header out ! j = header pre ! j"
    unfolding A using jX ty [unfolded A] by (intro header_parse_first(2)) (simp_all add: hpre del: parse_first.simps)
  with ty have tX: "snd (header X ! j) = Number" by (simp add: hpre)
  let ?M = "median (getitem X j)"
  have colF: "getitem F j = map (\<lambda>c. if c = NA then ?M else c) (getitem X j)"
    using fn(3) [OF jX] tX by (simp add: fillna_map)
  have row: "\<exists>r0 \<in> set (body X). snd r ! j = (if snd r0 ! j = NA then ?M else snd r0 ! j)"
    if r: "r \<in> set (body out)" for r
  proof -
    have "j < length (header pre)" using jX by (simp add: hpre)
    moreover from ty have "snd (header (parse_first parse [''timestamp'', ''date'', ''watch_date''] pre) ! j)
      \<noteq> Datetime" by (simp add: A [symmetric] del: parse_first.simps)
    moreover note r [unfolded A]
    ultimately obtain r1 where r1: "r1 \<in> set (body pre)" "snd r ! j = snd r1 ! j"
      using body_parse_first by blast
    from r1(1) have "r1 \<in> set (body F)"
      using body_drop_missing_keys [of "[''user_id'', ''movie_id'']" F] by (auto simp add: pre_def)
    with rows_of_columns [OF fn(2) colF]
    obtain r0 where "r0 \<in> set (body X)"
      "snd r1 ! j = (if snd r0 ! j = NA then ?M else snd r0 ! j)" by blast
    with r1(2) show ?thesis by auto
  qed
  show ?thesis unfolding out_def [symmetric]
  proof (cases "?M = NA")
    case False
    have "snd r ! j \<noteq> NA" if "r \<in> set (body out)" for r
      using row [OF that] False by (auto split: if_splits)
    then have "NA \<notin> set (getitem out j)" unfolding in_getitem by blast
    then show "NA \<notin> set (getitem out j) \<or> nums (getitem out j) = []" ..
  next
    case True
    then have "\<forall>q. Num q \<notin> set (getitem X j)"
      by (simp add: median_NA_iff nums_empty_iff)
    then have noX: "snd r0 ! j \<noteq> Num q" if "r0 \<in> set (body X)" for r0 q
      using that unfolding in_getitem by blast
    have "snd r ! j \<noteq> Num q" if "r \<in> set (body out)" for r q
      using row [OF that] True noX by (auto split: if_splits)
    then have "\<forall>q. Num q \<notin> set (getitem out j)" unfolding in_getitem by blast
    then have "nums (getitem out j) = []" by (simp add: nums_empty_iff)
    then show "NA \<notin> set (getitem out j) \<or> nums (getitem out j) = []" ..
  qed
qed

lemma key_column_filled_A:
  assumes "k \<in> set [''user_id'', ''movie_id'']"
    and "pos_of k (names (clean_data_A parse df)) = Some j"
  shows "NA \<notin> set (getitem (clean_data_A parse df) j)"
proof
  define pre where "pre = drop_missing_keys [''user_id'', ''movie_id'']
                (fill_numeric (drop_duplicates (rename_columns df)))"
  have A: "clean_data_A parse df = parse_first parse [''timestamp'', ''date'', ''watch_date''] pre"
    by (simp only: clean_data_A_def pre_def)
  from assms(2) have p: "pos_of k (names pre) = Some j" by (simp only: A names_parse_first)
  have k: "k \<notin> set [''timestamp'', ''date'', ''watch_date'']" using assms(1) by auto
  assume "NA \<in> set (getitem (clean_data_A parse df) j)"
  then obtain r where "r \<in> set (body (parse_first parse [''timestamp'', ''date'', ''watch_date''] pre))"
    and na: "snd r ! j = NA" by (auto simp add: getitem_def A simp del: parse_first.simps)
  with body_parse_first_by_name [OF p k] obtain r1 where "r1 \<in> set (body pre)" "snd r1 ! j = NA"
    by metis
  moreover from p have "pos_of k (names (fill_numeric (drop_duplicates (rename_columns df)))) = Some j"
    by (simp only: pre_def names_drop_missing_keys)
  ultimately show False
    using drop_missing_keys_notna [OF assms(1)] unfolding pre_def by blast
qed

lemma strs_fillna: "strs cs \<noteq> [] \<Longrightarrow> strs (fillna cs v) \<noteq> []"
proof -
  assume "strs cs \<noteq> []"
  then obtain s where "Str s \<in> set cs" by (auto simp add: strs_empty_iff)
  then have "Str s \<in> set (fillna cs v)" by (force simp add: fillna_def)
  then show ?thesis by (auto simp add: strs_empty_iff)
qed

lemma clean_data_A_again:
  assumes "valid df" and "distinct (map snd (body (clean_data_A parse df)))"
  shows "clean_data_A parse (clean_data_A parse df) = clean_data_A parse df"
proof -
  define out where "out = clean_data_A parse df"
  define pre where "pre = drop_missing_keys [''user_id'', ''movie_id'']
                (fill_numeric (drop_duplicates (rename_columns df)))"
  have A: "out = parse_first parse [''timestamp'', ''date'', ''watch_date''] pre"
    by (simp only: out_def clean_data_A_def pre_def)
  have "names out = map norm_name (names df)" unfolding out_def by (rule names_clean_data_A)
  then have R: "rename_columns out = out" by (rule rename_columns_fixed)
  have D: "drop_duplicates out = out"
    using assms(2) by (simp add: drop_duplicates_def keep_first_fixed out_def)
  have N: "fill_numeric out = out"
    unfolding fill_numeric_def
  proof (rule fold_fixed, rule fill_median_fixed)
    fix c j
    assume "c \<in> set (select_dtypes Number out)" and "pos_of c (names out) = Some j"
    then show "NA \<notin> set (getitem out j) \<or> nums (getitem out j) = []"
      unfolding out_def using assms(1) by (intro numeric_column_settled_A)
  qed
  have K: "drop_missing_keys [''user_id'', ''movie_id''] out = out"
  proof (rule drop_missing_keys_fixed)
    fix k j
    assume "k \<in> set [''user_id'', ''movie_id'']" and "pos_of k (names out) = Some j"
    then show "NA \<notin> set (getitem out j)"
      unfolding out_def by (rule key_column_filled_A)
  qed
  have P: "parse_first parse [''timestamp'', ''date'', ''watch_date''] out = out"
    unfolding A by (rule parse_first_idem)
  have "clean_data_A parse out = out"
    by (simp only: clean_data_A_def R D N K P)
  then show ?thesis by (simp only: out_def)
qed

lemma clean_data_B_again:
  assumes "valid df" and "clean_data_B df = Inr out" and "distinct (map snd (body out))"
  shows "clean_data_B out = Inr out"
proof -
  define X where "X = rename_columns (drop_duplicates df)"
  define F where "F = fill_numeric X"
  note base = base_frame [OF assms(1), folded X_def]
  note fn = fill_numeric_columns [OF base(1,2), folded F_def]
  have hF: "header F = header X" unfolding F_def by (rule header_fill_numeric)
  have nF: "distinct (names F)" using base(2) by (simp add: names_def hF)
  from assms(2) have fo: "fill_object F = Inr out"
    by (simp add: clean_data_B_def F_def X_def)
  note fob = fill_object_columns [OF fn(1) nF fo]
  have hout: "header out = header X" using fob(2) hF by simp
  have dout: "distinct (names out)" using base(2) by (simp add: names_def hout)
  have "names out = map norm_name (names df)" using assms(2) by (rule names_clean_data_B)
  then have R: "rename_columns out = out" by (rule rename_columns_fixed)
  have D: "drop_duplicates out = out"
    using assms(3) by (simp add: drop_duplicates_def keep_first_fixed)
  have N: "fill_numeric out = out"
    unfolding fill_numeric_def
  proof (rule fold_fixed, rule fill_median_fixed)
    fix c j
    assume c: "c \<in> set (select_dtypes Number out)" and p: "pos_of c (names out) = Some j"
    from pos_of_Some [OF p] have j: "j < length (header out)" and cj: "names out ! j = c"
      by (simp_all add: names_def)
    from c cj have ty: "snd (header out ! j) = Number"
      using select_dtypes_nth [OF dout j, of Number] by simp
    have jX: "j < length (header X)" using j hout by simp
    have tX: "snd (header X ! j) = Number" using ty hout by simp
    have "j < length (header F)" and "snd (header F ! j) \<noteq> Object" using jX tX by (simp_all add: hF)
    with fob(4) [of j] have "getitem out j = getitem F j" by simp
    also have "\<dots> = fillna (getitem X j) (median (getitem X j))"
      using fn(3) [OF jX] tX by simp
    finally have o: "getitem out j = fillna (getitem X j) (median (getitem X j))" .
    show "NA \<notin> set (getitem out j) \<or> nums (getitem out j) = []"
    proof (cases "median (getitem X j) = NA")
      case True
      then have "fillna (getitem X j) (median (getitem X j)) = getitem X j"
        by (simp add: fillna_fixed)
      with o have "getitem out j = getitem X j" by simp
      moreover from True have "nums (getitem X j) = []" by (simp add: median_NA_iff)
      ultimately show ?thesis by simp
    next
      case False
      with o show ?thesis by (simp add: fillna_no_NA)
    qed
  qed
  have O: "fill_object out = Inr out"
    unfolding fill_object_def
  proof (rule fill_modes_fixed, rule fill_mode_fixed)
    fix c j
    assume c: "c \<in> set (select_dtypes Object out)" and p: "pos_of c (names out) = Some j"
    from pos_of_Some [OF p] have j: "j < length (header out)" and cj: "names out ! j = c"
      by (simp_all add: names_def)
    from c cj have ty: "snd (header out ! j) = Object"
      using select_dtypes_nth [OF dout j, of Object] by simp
    have "j < length (header F)" and "snd (header F ! j) = Object"
      using j ty hout by (simp_all add: hF)
    with fob(4) [of j] obtain m ms where m: "mode (getitem F j) = m # ms"
      and o: "getitem out j = fillna (getitem F j) (Str m)" by auto
    from m have "strs (getitem F j) \<noteq> []" using mode_empty_iff [of "getitem F j"] by auto
    then have "strs (getitem out j) \<noteq> []" unfolding o by (rule strs_fillna)
    moreover have "NA \<notin> set (getitem out j)" unfolding o by (simp add: fillna_no_NA)
    ultimately show "NA \<notin> set (getitem out j) \<and> strs (getitem out j) \<noteq> []" by simp
  qed
  show ?thesis by (simp only: clean_data_B_def D R N O)
qed

section \<open>The claims\<close>



text \<open>
  C9. \<^verbatim>\<open>clean_data\<close> does not change its argument, in either variant: after the call,
  also when variant B raises, the input object and every other object that existed before
  the call are as they were, and a returned object is a new one that holds the result.
\<close>

theorem input_not_mutated:
  assumes "df0 < length h"
  shows "(case clean_data_A_heap parse h df0 of
            (h', out) \<Rightarrow> h' ! df0 = h ! df0 \<and> take (length h) h' = h
                         \<and> length h \<le> out \<and> h' ! out = clean_data_A parse (h ! df0))
         \<and> (case clean_data_B_heap h df0 of
            (h', res) \<Rightarrow> h' ! df0 = h ! df0 \<and> take (length h) h' = h
                         \<and> (case res of Inl e \<Rightarrow> clean_data_B (h ! df0) = Inl e
                             | Inr out \<Rightarrow> length h \<le> out \<and> clean_data_B (h ! df0) = Inr (h' ! out)))"
proof
  let ?n = "length h"
  let ?h2 = "h @ [rename_columns (h ! df0)]"
  let ?h3 = "?h2 @ [drop_duplicates (rename_columns (h ! df0))]"
  let ?h4 = "?h2 @ [fill_numeric (drop_duplicates (rename_columns (h ! df0)))]"
  obtain h5 df5 where dmk: "drop_missing_keys_heap [''user_id'', ''movie_id''] ?h4 (Suc ?n) = (h5, df5)"
    by (cases "drop_missing_keys_heap [''user_id'', ''movie_id''] ?h4 (Suc ?n)")
  have "Suc ?n < length ?h4" and "?n \<le> length ?h4" by simp_all
  from drop_missing_keys_heap_frame [OF dmk this]
  have fr: "take ?n h5 = take ?n ?h4" "df5 < length h5"
    "h5 ! df5 = drop_missing_keys [''user_id'', ''movie_id''] (?h4 ! Suc ?n)"
    and "?n \<le> Suc ?n \<longrightarrow> ?n \<le> df5"
    by blast+
  then have ge: "?n \<le> df5" by simp
  let ?h6 = "h5[df5 := parse_first parse [''timestamp'', ''date'', ''watch_date''] (h5 ! df5)]"
  have run: "clean_data_A_heap parse h df0 = (?h6, df5)"
    using dmk assms
    by (simp add: clean_data_A_heap_def alloc_def nth_append list_update_append Let_def
        del: drop_missing_keys_heap.simps parse_first.simps)
  have tk: "take ?n ?h6 = h" using fr(1) ge by (simp add: take_update_cancel)
  then have "?h6 ! df0 = h ! df0" using assms by (metis nth_take)
  moreover have "?h6 ! df5 = clean_data_A parse (h ! df0)"
    using fr(2,3) by (simp add: clean_data_A_def nth_append del: drop_missing_keys.simps parse_first.simps)
  ultimately show "case clean_data_A_heap parse h df0 of
            (h', out) \<Rightarrow> h' ! df0 = h ! df0 \<and> take (length h) h' = h
                         \<and> length h \<le> out \<and> h' ! out = clean_data_A parse (h ! df0)"
    using run tk ge by simp
next
  let ?n = "length h"
  let ?d = "fill_numeric (rename_columns (drop_duplicates (h ! df0)))"
  let ?h4 = "h @ [h ! df0, ?d]"
  obtain h' res where fm: "fill_modes_heap (select_dtypes Object ?d) ?h4 (Suc ?n) = (h', res)"
    by (cases "fill_modes_heap (select_dtypes Object ?d) ?h4 (Suc ?n)")
  have run: "clean_data_B_heap h df0 = (h', res)"
    using fm assms
    by (simp add: clean_data_B_heap_def alloc_def nth_append list_update_append Let_def)
  have "Suc ?n < length ?h4" and "?n \<le> Suc ?n" by simp_all
  from fill_modes_heap_frame [OF fm this]
  have tk: "take ?n h' = take ?n ?h4"
    and rs: "case res of Inl e \<Rightarrow> fill_modes (select_dtypes Object ?d) (?h4 ! Suc ?n) = Inl e
             | Inr df' \<Rightarrow> df' = Suc ?n \<and> df' < length h' \<and> fill_modes (select_dtypes Object ?d) (?h4 ! Suc ?n) = Inr (h' ! df')"
    by blast+
  from tk have tk': "take ?n h' = h" by simp
  then have "h' ! df0 = h ! df0" using assms by (metis nth_take)
  moreover have "case res of Inl e \<Rightarrow> clean_data_B (h ! df0) = Inl e
                 | Inr out \<Rightarrow> length h \<le> out \<and> clean_data_B (h ! df0) = Inr (h' ! out)"
    using rs by (auto simp add: clean_data_B_def fill_object_def nth_append split: sum.splits)
  ultimately show "case clean_data_B_heap h df0 of
            (h', res) \<Rightarrow> h' ! df0 = h ! df0 \<and> take (length h) h' = h
                         \<and> (case res of Inl e \<Rightarrow> clean_data_B (h ! df0) = Inl e
                             | Inr out \<Rightarrow> length h \<le> out \<and> clean_data_B (h ! df0) = Inr (h' ! out))"
    using run tk' by simp
qed

theorem input_not_mutated_witness:
  "0 < length [viewing]
   \<and> (case clean_data_A_heap sample_parse [viewing] 0 of
         (h', out) \<Rightarrow> h' ! 0 = viewing \<and> h' ! out = clean_data_A sample_parse viewing)
   \<and> (case clean_data_B_heap [viewing] 0 of
         (h', res) \<Rightarrow> h' ! 0 = viewing)"
  using input_not_mutated [of 0 "[viewing]" sample_parse]
  by (simp add: case_prod_unfold)

text \<open>
  C2. The claim that no valid dataset makes \<^verbatim>\<open>clean_data\<close> raise fails for variant B: on a
  dataset with a text column and no rows (a CSV file with only its header line) the mode
  of the column is empty and \<^verbatim>\<open>mode()[0]\<close> raises KeyError.
\<close>

theorem variant_B_raises_on_header_only:
  "valid header_only \<and> clean_data_B header_only = Inl KeyError"
  by code_simp

text \<open>
  C1. The claim that a row with a missing \<^verbatim>\<open>user_id\<close> is absent from the result fails for a
  numeric \<^verbatim>\<open>user_id\<close> column: the median is filled in before the rows with a missing
  identifier are dropped, so row 1 stays, as user 2.
\<close>

theorem missing_user_id_row_kept:
  "valid ratings
   \<and> clean_data_A parse ratings =
       \<lparr>header = [(''user_id'', Number), (''title'', Object)],
        body = [(0, [Num 1, Str ''Heat'']), (1, [Num 2, Str ''Ran'']), (2, [Num 3, Str ''Up''])]\<rparr>"
  by code_simp

text \<open>
  C10. On a dataset whose columns are all numeric and none of whose normalized column
  names is \<^verbatim>\<open>user_id\<close>, \<^verbatim>\<open>movie_id\<close>, \<^verbatim>\<open>timestamp\<close>, \<^verbatim>\<open>date\<close> or \<^verbatim>\<open>watch_date\<close>, variant B
  returns, and returns what variant A returns: renaming the columns and dropping duplicate
  rows commute.
\<close>

theorem variants_agree_on_numeric:
  assumes "list_all (\<lambda>ct. snd ct = Number) (header df)"
    and "set (map norm_name (names df))
           \<inter> {''user_id'', ''movie_id'', ''timestamp'', ''date'', ''watch_date''} = {}"
  shows "clean_data_B df = Inr (clean_data_A parse df)
         \<and> rename_columns (drop_duplicates df) = drop_duplicates (rename_columns df)"
proof -
  let ?d = "fill_numeric (drop_duplicates (rename_columns df))"
  have hd: "header ?d = map (\<lambda>(c, t). (norm_name c, t)) (header df)"
    by (simp add: header_fill_numeric header_drop_duplicates header_rename_columns)
  have nm: "names ?d = map norm_name (names df)"
    by (simp add: names_def hd case_prod_unfold comp_def)
  have absent: "pos_of k (names ?d) = None"
    if "k \<in> {''user_id'', ''movie_id'', ''timestamp'', ''date'', ''watch_date''}" for k
    unfolding pos_of_None_iff nm using assms(2) that by (meson disjoint_iff)
  have a1: "pos_of ''user_id'' (names ?d) = None" by (rule absent) simp
  have a2: "pos_of ''movie_id'' (names ?d) = None" by (rule absent) simp
  have a3: "pos_of ''timestamp'' (names ?d) = None" by (rule absent) simp
  have a4: "pos_of ''date'' (names ?d) = None" by (rule absent) simp
  have a5: "pos_of ''watch_date'' (names ?d) = None" by (rule absent) simp
  have "list_all (\<lambda>ct. snd ct = Number) (header ?d)"
    using assms(1) by (simp add: hd list_all_iff case_prod_unfold)
  then have "select_dtypes Object ?d = []"
    unfolding select_dtypes_def by (rule select_dtypes_Object_none)
  then have B: "clean_data_B df = Inr ?d"
    by (simp add: clean_data_B_def fill_object_def rename_drop_duplicates_commute)
  have "drop_missing_keys [''user_id'', ''movie_id''] ?d = ?d"
    by (simp add: a1 a2)
  then have "clean_data_A parse df = ?d"
    by (simp add: clean_data_A_def a3 a4 a5)
  with B show ?thesis by (simp add: rename_drop_duplicates_commute)
qed

theorem variants_agree_on_numeric_witness:
  "list_all (\<lambda>ct. snd ct = Number) (header plain)
   \<and> set (map norm_name (names plain))
        \<inter> {''user_id'', ''movie_id'', ''timestamp'', ''date'', ''watch_date''} = {}
   \<and> clean_data_B plain = Inr (clean_data_A sample_parse plain)
   \<and> clean_data_A sample_parse plain =
       \<lparr>header = [(''rating'', Number), (''watch_duration_min'', Number)],
        body = [(0, [Num 4, Num 90]), (1, [Num 4, Num 120]), (3, [Num 5, Num 90]),
                (4, [Num 3, Num 60])]\<rparr>"
proof -
  have h1: "list_all (\<lambda>ct. snd ct = Number) (header plain)" by (simp add: plain_def)
  have "map norm_name (names plain) = [''rating'', ''watch_duration_min'']" by code_simp
  then have h2: "set (map norm_name (names plain))
        \<inter> {''user_id'', ''movie_id'', ''timestamp'', ''date'', ''watch_date''} = {}" by simp
  have A: "clean_data_A sample_parse plain =
       \<lparr>header = [(''rating'', Number), (''watch_duration_min'', Number)],
        body = [(0, [Num 4, Num 90]), (1, [Num 4, Num 120]), (3, [Num 5, Num 90]),
                (4, [Num 3, Num 60])]\<rparr>" by code_simp
  from variants_agree_on_numeric [OF h1 h2, of sample_parse]
  have B: "clean_data_B plain = Inr (clean_data_A sample_parse plain)" by (rule conjunct1)
  show ?thesis by (intro conjI h1 h2 B A)
qed






text \<open>
  C5, as amended. In variant B, when \<^verbatim>\<open>clean_data\<close> returns on a valid dataset, every
  text column of the result
  is the column left after dropping duplicate rows with each missing entry replaced by the
  column's mode \<open>m\<close>, and no entry is missing. The mode is a value of the column, no value
  occurs more often, and among the values that occur as often it is the least in string
  order. In \<^verbatim>\<open>["a", "a", missing, "b"]\<close> the missing entry becomes \<^verbatim>\<open>"a"\<close>.
\<close>

theorem text_imputation:
  assumes "valid df" and "clean_data_B df = Inr out"
    and "j < length (header df)" and "snd (header df ! j) = Object"
  shows "(\<exists>m ms. mode (getitem (drop_duplicates df) j) = m # ms
            \<and> getitem out j = fillna (getitem (drop_duplicates df) j) (Str m)
            \<and> NA \<notin> set (getitem out j)
            \<and> m \<in> set (strs (getitem (drop_duplicates df) j))
            \<and> (\<forall>s. count_list (strs (getitem (drop_duplicates df) j)) s
                     \<le> count_list (strs (getitem (drop_duplicates df) j)) m)
            \<and> (\<forall>s. count_list (strs (getitem (drop_duplicates df) j)) s
                     = count_list (strs (getitem (drop_duplicates df) j)) m \<longrightarrow> m \<le> s))
         \<and> fillna [Str ''a'', Str ''a'', NA, Str ''b''] (Str (hd (mode [Str ''a'', Str ''a'', NA, Str ''b''])))
             = [Str ''a'', Str ''a'', Str ''a'', Str ''b'']"
proof
  define X where "X = rename_columns (drop_duplicates df)"
  define F where "F = fill_numeric X"
  note base = base_frame [OF assms(1), folded X_def]
  have jX: "j < length (header X)" using assms(3) base(3) by simp
  have tX: "snd (header X ! j) = Object" using assms(3,4) base(4) by simp
  have colX: "getitem X j = getitem (drop_duplicates df) j" by (rule base(6))
  note fn = fill_numeric_columns [OF base(1,2), folded F_def]
  have colF: "getitem F j = getitem (drop_duplicates df) j"
    using fn(3) [OF jX] tX by (simp add: colX)
  have hF: "header F = header X" unfolding F_def by (rule header_fill_numeric)
  have nF: "distinct (names F)" using base(2) by (simp add: names_def hF)
  from assms(2) have fo: "fill_object F = Inr out"
    by (simp add: clean_data_B_def F_def X_def)
  have "j < length (header F)" and "snd (header F ! j) = Object"
    using jX tX by (simp_all add: hF)
  with fill_object_columns(4) [OF fn(1) nF fo, of j]
  obtain m ms where m: "mode (getitem F j) = m # ms"
    and o: "getitem out j = fillna (getitem F j) (Str m)" by auto
  let ?col = "getitem (drop_duplicates df) j"
  from m have m': "mode ?col = m # ms" by (simp add: colF)
  from o have o': "getitem out j = fillna ?col (Str m)" by (simp add: colF)
  then have "NA \<notin> set (getitem out j)" by (simp add: fillna_no_NA)
  with m' o' mode_most_frequent [OF m']
  show "\<exists>m ms. mode ?col = m # ms
            \<and> getitem out j = fillna ?col (Str m)
            \<and> NA \<notin> set (getitem out j)
            \<and> m \<in> set (strs ?col)
            \<and> (\<forall>s. count_list (strs ?col) s \<le> count_list (strs ?col) m)
            \<and> (\<forall>s. count_list (strs ?col) s = count_list (strs ?col) m \<longrightarrow> m \<le> s)"
    by blast
  show "fillna [Str ''a'', Str ''a'', NA, Str ''b''] (Str (hd (mode [Str ''a'', Str ''a'', NA, Str ''b''])))
             = [Str ''a'', Str ''a'', Str ''a'', Str ''b'']"
    by code_simp
qed

theorem text_imputation_witness:
  "valid genres \<and> 0 < length (header genres) \<and> snd (header genres ! 0) = Object
   \<and> clean_data_B genres =
       Inr \<lparr>header = [(''genre'', Object)],
            body = [(0, [Str ''a'']), (2, [Str ''a'']), (3, [Str ''b''])]\<rparr>
   \<and> NA \<notin> set (getitem \<lparr>header = [(''genre'', Object)],
            body = [(0, [Str ''a'']), (2, [Str ''a'']), (3, [Str ''b''])]\<rparr> 0)"
proof -
  have h1: "valid genres" by code_simp
  have h2: "0 < length (header genres)" by (simp add: genres_def)
  have h3: "snd (header genres ! 0) = Object" by (simp add: genres_def)
  have run: "clean_data_B genres =
       Inr \<lparr>header = [(''genre'', Object)],
            body = [(0, [Str ''a'']), (2, [Str ''a'']), (3, [Str ''b''])]\<rparr>"
    by code_simp
  from text_imputation [OF h1 run h2 h3]
  have "NA \<notin> set (getitem \<lparr>header = [(''genre'', Object)],
            body = [(0, [Str ''a'']), (2, [Str ''a'']), (3, [Str ''b''])]\<rparr> 0)"
    by blast
  with h1 h2 h3 run show ?thesis by blast
qed

text \<open>
  C5 as stated fails on the tie-break: in \<^verbatim>\<open>["b", "a", missing]\<close> both values occur once,
  \<^verbatim>\<open>"b"\<close> is the first encountered, and the missing entry becomes \<^verbatim>\<open>"a"\<close>: the library
  returns the modes sorted.
\<close>

theorem mode_tie_not_first_seen:
  "valid tie
   \<and> first_mode (getitem (drop_duplicates tie) 0) = Some ''b''
   \<and> clean_data_B tie =
       Inr \<lparr>header = [(''genre'', Object)],
            body = [(0, [Str ''b'']), (1, [Str ''a'']), (2, [Str ''a''])]\<rparr>"
  by code_simp




text \<open>
  C4, as amended. For a valid dataset, cleaning the result of \<^verbatim>\<open>clean_data\<close> once more
  returns that result unchanged, in both variants, whenever no two rows of the result have
  the same cells.
\<close>

theorem idempotent_when_rows_distinct:
  assumes "valid df"
  shows "(distinct (map snd (body (clean_data_A parse df)))
            \<longrightarrow> clean_data_A parse (clean_data_A parse df) = clean_data_A parse df)
         \<and> (\<forall>out. clean_data_B df = Inr out \<longrightarrow> distinct (map snd (body out))
                \<longrightarrow> clean_data_B out = Inr out)"
  using assms clean_data_A_again clean_data_B_again by blast

theorem idempotent_when_rows_distinct_witness:
  "valid watched
   \<and> distinct (map snd (body (clean_data_A sample_parse watched)))
   \<and> clean_data_A sample_parse (clean_data_A sample_parse watched)
       = clean_data_A sample_parse watched
   \<and> (\<exists>out. clean_data_B watched = Inr out \<and> distinct (map snd (body out))
          \<and> clean_data_B out = Inr out)"
proof -
  have v: "valid watched" by code_simp
  have a: "clean_data_A sample_parse watched =
     \<lparr>header = [(''title'', Object), (''date'', Object), (''timestamp'', Datetime)],
      body = [(0, [Str ''Heat'', Str ''2024-01-02'', Dt 1704067200]),
              (1, [Str ''Ran'', Str ''2024-01-02'', NA])]\<rparr>" by code_simp
  have da: "distinct (map snd (body (clean_data_A sample_parse watched)))"
    unfolding a by simp
  have b: "clean_data_B watched =
     Inr \<lparr>header = [(''title'', Object), (''date'', Object), (''timestamp'', Object)],
      body = [(0, [Str ''Heat'', Str ''2024-01-02'', Str ''2024-01-01'']),
              (1, [Str ''Ran'', Str ''2024-01-02'', Str ''not-a-date''])]\<rparr>" by code_simp
  then obtain out where run: "clean_data_B watched = Inr out"
    and db: "distinct (map snd (body out))" by simp
  note T = idempotent_when_rows_distinct [OF v, of sample_parse]
  from T da have 1: "clean_data_A sample_parse (clean_data_A sample_parse watched)
       = clean_data_A sample_parse watched" by blast
  from T run db have 2: "clean_data_B out = Inr out" by blast
  from v da 1 2 run db show ?thesis by blast
qed

text \<open>
  C4 as stated fails: the first pass fills the missing entry of row 0 with the median 2,
  which makes rows 0 and 1 equal, and the second pass drops row 1.
\<close>

theorem second_pass_drops_a_row:
  "valid twins
   \<and> clean_data_B twins =
       Inr \<lparr>header = [(''a'', Number), (''b'', Number)],
            body = [(0, [Num 1, Num 2]), (1, [Num 1, Num 2])]\<rparr>
   \<and> clean_data_B \<lparr>header = [(''a'', Number), (''b'', Number)],
                     body = [(0, [Num 1, Num 2]), (1, [Num 1, Num 2])]\<rparr> =
       Inr \<lparr>header = [(''a'', Number), (''b'', Number)], body = [(0, [Num 1, Num 2])]\<rparr>
   \<and> clean_data_A sample_parse (clean_data_A sample_parse twins) =
       \<lparr>header = [(''a'', Number), (''b'', Number)], body = [(0, [Num 1, Num 2])]\<rparr>
   \<and> clean_data_A sample_parse twins =
       \<lparr>header = [(''a'', Number), (''b'', Number)],
        body = [(0, [Num 1, Num 2]), (1, [Num 1, Num 2])]\<rparr>"
  by code_simp

end
